theory Spec2Isabelle
  imports Complex_Main
begin

section \<open>Text: characters, case mapping, whitespace\<close>

text \<open>
  The script works on Python \<open>str\<close> values. Text is modelled as \<open>string\<close>, read as a
  sequence of ASCII code points: \<open>str.lower\<close>, \<open>str.upper\<close>, \<open>str.strip\<close> and the regex
  class \<open>\s\<close> are Python's, restricted to ASCII (the ten ASCII characters for which
  \<open>str.isspace\<close> holds; the letters A-Z and a-z). Characters above 127 are carried
  through unchanged.
\<close>

definition isspace :: "char \<Rightarrow> bool" where
  "isspace c \<longleftrightarrow>
     c \<in> set [CHR 0x09, CHR 0x0A, CHR 0x0B, CHR 0x0C, CHR 0x0D,
              CHR 0x1C, CHR 0x1D, CHR 0x1E, CHR 0x1F, CHR 0x20]"

definition isupper :: "char \<Rightarrow> bool" where
  "isupper c \<longleftrightarrow> 65 \<le> (of_char c :: nat) \<and> (of_char c :: nat) \<le> 90"

definition islower :: "char \<Rightarrow> bool" where
  "islower c \<longleftrightarrow> 97 \<le> (of_char c :: nat) \<and> (of_char c :: nat) \<le> 122"

definition lower_char :: "char \<Rightarrow> char" where
  "lower_char c = (if isupper c then char_of (of_char c + 32 :: nat) else c)"

definition upper_char :: "char \<Rightarrow> char" where
  "upper_char c = (if islower c then char_of (of_char c - 32 :: nat) else c)"

definition lower :: "string \<Rightarrow> string" where
  "lower s = map lower_char s"

definition upper :: "string \<Rightarrow> string" where
  "upper s = map upper_char s"

text \<open>\<open>str.lstrip()\<close>, \<open>str.rstrip()\<close>, \<open>str.strip()\<close>: leading and trailing whitespace removed.\<close>

definition lstrip :: "string \<Rightarrow> string" where
  "lstrip s = dropWhile isspace s"

definition rstrip :: "string \<Rightarrow> string" where
  "rstrip s = rev (dropWhile isspace (rev s))"

definition strip :: "string \<Rightarrow> string" where
  "strip s = rstrip (lstrip s)"

text \<open>\<open>re.sub(r'\s+', ' ', text)\<close>: every maximal run of whitespace becomes one space.\<close>

function sub_ws :: "string \<Rightarrow> string" where
  "sub_ws [] = []"
| "sub_ws (c # cs) =
     (if isspace c then CHR '' '' # sub_ws (dropWhile isspace cs) else c # sub_ws cs)"
  by pat_completeness auto
termination
  by (relation "measure length") (auto simp: le_imp_less_Suc length_dropWhile_le)

text \<open>Lines 18 to 20 of \<open>normalize\<close>: the cleanup shared by messages and templates.\<close>

definition clean :: "string \<Rightarrow> string" where
  "clean text = sub_ws (strip (lower text))"

section \<open>String helpers of the Python library\<close>

definition bslash :: char where
  "bslash = CHR 0x5C"

definition startswith :: "string \<Rightarrow> string \<Rightarrow> bool" where
  "startswith s p \<longleftrightarrow> take (length p) s = p"

definition endswith :: "string \<Rightarrow> string \<Rightarrow> bool" where
  "endswith s p \<longleftrightarrow> length p \<le> length s \<and> drop (length s - length p) s = p"

text \<open>
  \<open>str.replace(old, new)\<close>: the occurrences of \<open>old\<close> are replaced from left to right without
  overlap; an empty \<open>old\<close> inserts \<open>new\<close> around every character.
\<close>

function str_replace :: "string \<Rightarrow> string \<Rightarrow> string \<Rightarrow> string" where
  "str_replace old new s =
     (if old = [] then new @ concat (map (\<lambda>c. c # new) s)
      else if s = [] then []
      else if take (length old) s = old
        then new @ str_replace old new (drop (length old) s)
      else hd s # str_replace old new (tl s))"
  by pat_completeness auto
termination
  by (relation "measure (\<lambda>(old, new, s). length s)") auto

declare str_replace.simps [simp del]

text \<open>
  \<open>re.escape\<close> (Python 3.7 and later): a backslash is put before each of the characters
  \<open>()[]{}?*+-|^$\.&~#\<close>, the space and the tab, newline, carriage return, vertical tab and
  form feed; every other character is kept as it is.
\<close>

definition re_special :: "char \<Rightarrow> bool" where
  "re_special c \<longleftrightarrow>
     c \<in> set ''()[]{}?*+-|^$.&~# '' \<or>
     c \<in> set [bslash, CHR 0x09, CHR 0x0A, CHR 0x0D, CHR 0x0B, CHR 0x0C]"

definition escape_char :: "char \<Rightarrow> string" where
  "escape_char c = (if re_special c then [bslash, c] else [c])"

definition re_escape :: "string \<Rightarrow> string" where
  "re_escape s = concat (map escape_char s)"

section \<open>Splitting a template at its placeholders\<close>

text \<open>
  \<open>re.split(r'(<.*?>)', text)\<close>. The pattern matches at a \<open><\<close> when a \<open>>\<close> follows with no
  newline in between (the dot does not match a newline), and the lazy star stops at the
  first such \<open>>\<close>. \<open>find_gt\<close> scans the text after a \<open><\<close> and returns the placeholder's body
  and the text after the closing \<open>>\<close>. Since the pattern is one capture group, the result
  alternates literal segments and matched placeholders.
\<close>

fun find_gt :: "string \<Rightarrow> (string \<times> string) option" where
  "find_gt [] = None"
| "find_gt (c # cs) =
     (if c = CHR ''>'' then Some ([], cs)
      else if c = CHR 0x0A then None
      else (case find_gt cs of None \<Rightarrow> None | Some (b, r) \<Rightarrow> Some (c # b, r)))"

lemma find_gt_length: "find_gt cs = Some (b, r) \<Longrightarrow> length r < length cs"
  by (induction cs arbitrary: b) (auto split: if_splits option.splits)

function split_ph :: "string \<Rightarrow> string \<Rightarrow> string list" where
  "split_ph lit [] = [lit]"
| "split_ph lit (c # cs) =
     (if c = CHR ''<'' then
        (case find_gt cs of
           Some (b, r) \<Rightarrow> lit # (CHR ''<'' # b @ ''>'') # split_ph [] r
         | None \<Rightarrow> split_ph (lit @ [c]) cs)
      else split_ph (lit @ [c]) cs)"
  by pat_completeness auto
termination
  by (relation "measure (\<lambda>(lit, s). length s)") (auto dest: find_gt_length)

definition re_split_ph :: "string \<Rightarrow> string list" where
  "re_split_ph text = split_ph [] text"

section \<open>\<open>normalize\<close>\<close>

text \<open>
  The body of the loop of \<open>normalize\<close> (lines 28 to 39): a placeholder becomes \<open>.*?\<close>, a
  literal segment is escaped and each of its spaces becomes \<open>\s*\<close>.
\<close>

definition part_pattern :: "string \<Rightarrow> string" where
  "part_pattern part =
     (if startswith part ''<'' \<and> endswith part ''>'' then ''.*?''
      else str_replace '' '' (bslash # ''s*'')
             (str_replace [bslash, CHR '' ''] (bslash # ''s*'') (re_escape part)))"

definition normalize :: "string \<Rightarrow> bool \<Rightarrow> string" where
  "normalize text is_template =
     (let text = clean text in
      if is_template then
        (let parts = re_split_ph text;
             pattern = concat (map part_pattern parts)
         in ''^'' @ pattern @ ''$'')
      else text)"

section \<open>Compiled patterns\<close>

text \<open>
  \<open>re.compile\<close> and \<open>Pattern.fullmatch\<close> belong to Python's library. They are modelled on
  the fragment of the regex syntax that \<open>normalize\<close> can produce: the anchors \<open>^\<close> and \<open>$\<close>,
  a literal character (plain, or escaped by a backslash), the dot, the class \<open>\s\<close>, and
  the quantifiers \<open>*\<close> and \<open>*?\<close> on a character. A pattern that Python rejects gives
  \<open>BadEscape\<close> or \<open>NothingToRepeat\<close>; syntax outside the fragment (groups, classes,
  alternation, other quantifiers and escapes) gives \<open>Unsupported\<close>.
\<close>

datatype cls = Lit char | Dot | Space

datatype item = Bol | Eol | One cls | Star cls | LazyStar cls

datatype re_error = BadEscape | NothingToRepeat | Unsupported

type_synonym pattern = "item list"

definition isalnum :: "char \<Rightarrow> bool" where
  "isalnum c \<longleftrightarrow>
     isupper c \<or> islower c \<or> (48 \<le> (of_char c :: nat) \<and> (of_char c :: nat) \<le> 57)"

text \<open>The quantifier, if any, that follows a character atom.\<close>

fun quant :: "cls \<Rightarrow> string \<Rightarrow> item \<times> string" where
  "quant a [] = (One a, [])"
| "quant a (c # r) =
     (if c = CHR ''*'' then
        (case r of
           [] \<Rightarrow> (Star a, [])
         | d # r' \<Rightarrow> if d = CHR ''?'' then (LazyStar a, r') else (Star a, r))
      else (One a, c # r))"

lemma quant_length: "length (snd (quant a r)) \<le> length r"
  by (cases r) (auto split: list.splits)

definition cons_item :: "item \<Rightarrow> re_error + pattern \<Rightarrow> re_error + pattern" where
  "cons_item i res = (case res of Inl e \<Rightarrow> Inl e | Inr p \<Rightarrow> Inr (i # p))"

function re_parse :: "string \<Rightarrow> re_error + pattern" where
  "re_parse [] = Inr []"
| "re_parse (c # r) =
     (if c = CHR ''^'' then cons_item Bol (re_parse r)
      else if c = CHR ''$'' then cons_item Eol (re_parse r)
      else if c = CHR ''*'' then Inl NothingToRepeat
      else if c \<in> set ''()[]{}|+?'' then Inl Unsupported
      else if c = bslash then
        (case r of
           [] \<Rightarrow> Inl BadEscape
         | e # r' \<Rightarrow>
             if e = CHR ''s'' then
               cons_item (fst (quant Space r')) (re_parse (snd (quant Space r')))
             else if isalnum e then Inl Unsupported
             else cons_item (fst (quant (Lit e) r')) (re_parse (snd (quant (Lit e) r'))))
      else if c = CHR ''.'' then
        cons_item (fst (quant Dot r)) (re_parse (snd (quant Dot r)))
      else cons_item (fst (quant (Lit c) r)) (re_parse (snd (quant (Lit c) r))))"
  by pat_completeness auto
termination
proof (relation "measure length")
qed (auto simp: le_imp_less_Suc quant_length intro: le_less_trans [OF quant_length])

definition re_compile :: "string \<Rightarrow> re_error + pattern" where
  "re_compile pattern_str = re_parse pattern_str"

fun cls_ok :: "cls \<Rightarrow> char \<Rightarrow> bool" where
  "cls_ok (Lit c) x \<longleftrightarrow> x = c"
| "cls_ok Dot x \<longleftrightarrow> x \<noteq> CHR 0x0A"
| "cls_ok Space x \<longleftrightarrow> isspace x"

text \<open>
  \<open>matches p b s\<close>: the pattern \<open>p\<close> matches the whole of the remaining text \<open>s\<close>; \<open>b\<close> tells
  whether the position is the start of the string. A backtracking matcher finds a match
  whenever one exists, so the greedy and the lazy star differ only in the order in which
  the alternatives are tried. \<open>$\<close> holds at the end of the string and just before a
  final newline.
\<close>

fun matches :: "pattern \<Rightarrow> bool \<Rightarrow> string \<Rightarrow> bool" where
  "matches [] b s \<longleftrightarrow> s = []"
| "matches (Bol # p) b s \<longleftrightarrow> b \<and> matches p b s"
| "matches (Eol # p) b s \<longleftrightarrow> (s = [] \<or> s = [CHR 0x0A]) \<and> matches p b s"
| "matches (One a # p) b [] \<longleftrightarrow> False"
| "matches (One a # p) b (x # xs) \<longleftrightarrow> cls_ok a x \<and> matches p False xs"
| "matches (Star a # p) b [] \<longleftrightarrow> matches p b []"
| "matches (Star a # p) b (x # xs) \<longleftrightarrow>
     (cls_ok a x \<and> matches (Star a # p) False xs) \<or> matches p b (x # xs)"
| "matches (LazyStar a # p) b [] \<longleftrightarrow> matches p b []"
| "matches (LazyStar a # p) b (x # xs) \<longleftrightarrow>
     matches p b (x # xs) \<or> (cls_ok a x \<and> matches (LazyStar a # p) False xs)"

definition fullmatch :: "pattern \<Rightarrow> string \<Rightarrow> bool" where
  "fullmatch p s = matches p True s"

section \<open>The template registry\<close>

text \<open>
  A cell of a spreadsheet is a string or missing (\<open>NaN\<close>). A loaded sheet is the list of its
  columns, each a name and the values below it. The directory listing is the list of the
  file names, each with the result of reading it (file access is outside the script).
\<close>

datatype cell = Str string | NaN

datatype error = KeyError string | AttributeError | ReadError


text \<open>Line 54: the sender under which the templates of a file are registered.\<close>

definition bank_name :: "string \<Rightarrow> string" where
  "bank_name file = strip (str_replace ''_'' '' '' (upper (str_replace ''.xlsx'' [] file)))"


text \<open>
  Lines 67 to 74, with the compiler as a parameter \<open>rc\<close>; the script uses \<open>re.compile\<close>.
  A missing value is skipped, and so is a template whose pattern does not compile.
\<close>

fun compile_templates :: "(string \<Rightarrow> re_error + pattern) \<Rightarrow> cell list \<Rightarrow> pattern list" where
  "compile_templates rc [] = []"
| "compile_templates rc (t # ts) =
     (case t of
        NaN \<Rightarrow> compile_templates rc ts
      | Str s \<Rightarrow>
          (case rc (normalize s True) of
             Inr p \<Rightarrow> p # compile_templates rc ts
           | Inl e \<Rightarrow> compile_templates rc ts))"


section \<open>Coverage of one message\<close>

fun any_fullmatch :: "string \<Rightarrow> pattern list \<Rightarrow> bool" where
  "any_fullmatch norm_msg [] = False"
| "any_fullmatch norm_msg (tmpl_pattern # rest) =
     (if fullmatch tmpl_pattern norm_msg then True else any_fullmatch norm_msg rest)"

definition is_covered :: "string \<Rightarrow> pattern list \<Rightarrow> bool" where
  "is_covered message templates_list =
     (let norm_msg = normalize message False in any_fullmatch norm_msg templates_list)"

text \<open>
  A row is a dictionary from column names to cells. \<open>str\<close> of a missing value is the text
  \<open>nan\<close>. \<open>row['message']\<close> raises \<open>KeyError\<close> when the row has no such key.
\<close>

type_synonym row = "string \<rightharpoonup> cell"

fun str_of :: "cell \<Rightarrow> string" where
  "str_of (Str s) = s"
| "str_of NaN = ''nan''"

definition check_row :: "(string \<rightharpoonup> pattern list) \<Rightarrow> row \<Rightarrow> error + bool" where
  "check_row templates row =
     (case row ''casa_sender_name'' of
        Some (Str bank) \<Rightarrow>
          (case templates bank of
             Some templates_list \<Rightarrow>
               (case row ''message'' of
                  None \<Rightarrow> Inl (KeyError ''message'')
                | Some m \<Rightarrow> Inr (is_covered (str_of m) templates_list))
           | None \<Rightarrow> Inr False)
      | _ \<Rightarrow> Inr False)"

section \<open>The message table and the batch\<close>

record frame =
  columns :: "string list"
  records :: "row list"

text \<open>
  Lines 47 and 48. The sender column is overwritten by its upper-cased, stripped value; a
  value that is not a string stays missing. On a column that has rows and not one string
  the \<open>.str\<close> accessor raises.
\<close>

definition sender_key :: "string \<Rightarrow> string" where
  "sender_key s = strip (upper s)"

definition canon_row :: "row \<Rightarrow> row" where
  "canon_row r =
     (case r ''casa_sender_name'' of
        Some (Str s) \<Rightarrow> r(''casa_sender_name'' \<mapsto> Str (sender_key s))
      | _ \<Rightarrow> r)"

definition is_str :: "cell option \<Rightarrow> bool" where
  "is_str v = (case v of Some (Str s) \<Rightarrow> True | _ \<Rightarrow> False)"

definition canon_senders :: "frame \<Rightarrow> error + frame" where
  "canon_senders f =
     (if ''casa_sender_name'' \<in> set (columns f) then
        (if records f \<noteq> [] \<and> \<not> list_ex (\<lambda>r. is_str (r ''casa_sender_name'')) (records f)
         then Inl AttributeError
         else Inr (f\<lparr>records := map canon_row (records f)\<rparr>))
      else Inr f)"

text \<open>
  Lines 95 and 96. The column \<open>Message\<close> is renamed to \<open>message\<close>. The column names of a
  sheet are distinct; when a sheet has both columns, the dictionaries built at line 98 keep
  under the key \<open>message\<close> the value of the column that stands later in the column order.
\<close>

definition rename_row :: "string list \<Rightarrow> row \<Rightarrow> row" where
  "rename_row cols r =
     (\<lambda>k. if k = ''Message'' then None
          else if k = ''message'' then
            (if ''message'' \<in> set (dropWhile (\<lambda>c. c \<noteq> ''Message'') cols)
             then r ''message'' else r ''Message'')
          else r k)"

definition rename_message :: "frame \<Rightarrow> frame" where
  "rename_message f =
     (if ''Message'' \<in> set (columns f) then
        \<lparr>columns = map (\<lambda>c. if c = ''Message'' then ''message'' else c) (columns f),
          records = map (rename_row (columns f)) (records f)\<rparr>
      else f)"

text \<open>
  Lines 98 to 110. Every row is submitted as one unit; \<open>futs\<close> holds what each unit
  returns or raises. \<open>order\<close> is the order in which \<open>as_completed\<close> hands the units back.
  The handler of line 108 stores \<open>False\<close> for a unit that raised.
\<close>

definition fut_result :: "error + bool \<Rightarrow> bool" where
  "fut_result fut = (case fut of Inr b \<Rightarrow> b | Inl e \<Rightarrow> False)"

fun collect :: "(error + bool) list \<Rightarrow> bool option list \<Rightarrow> nat list \<Rightarrow> bool option list" where
  "collect futs results [] = results"
| "collect futs results (idx # order) =
     collect futs (results[idx := Some (fut_result (futs ! idx))]) order"

definition evaluate_batch ::
  "(string \<rightharpoonup> pattern list) \<Rightarrow> row list \<Rightarrow> nat list \<Rightarrow> bool option list" where
  "evaluate_batch templates rows order =
     (let results = replicate (length rows) None;
          futs = map (check_row templates) rows
      in collect futs results order)"

section \<open>Rounding to binary64\<close>

text \<open>
  Line 118 divides in float64. A float is modelled by the rational number it denotes, and
  \<open>f64_round\<close> rounds a rational to the nearest number with a significand of 53 bits, ties
  to the even significand: the denominator is doubled until the quotient is below
  \<open>2^53\<close>, the numerator is doubled until the quotient is at least \<open>2^52\<close>, and the
  quotient is rounded to an integer. Infinities and subnormal numbers do not arise from
  the quotient of two counts and are not modelled.
\<close>

definition rhe_div :: "int \<Rightarrow> int \<Rightarrow> int" where
  "rhe_div a b =
     (let q = a div b; r = a mod b
      in if 2 * r < b then q
         else if b < 2 * r then q + 1
         else if even q then q else q + 1)"

function norm_down :: "int \<Rightarrow> int \<Rightarrow> nat \<Rightarrow> int \<times> nat" where
  "norm_down a b j =
     (if b \<le> 0 \<or> a < b * 2 ^ 53 then (b, j) else norm_down a (2 * b) (j + 1))"
  by pat_completeness auto
termination
  by (relation "measure (\<lambda>(a, b, j). nat (a - b))") auto

function norm_up :: "int \<Rightarrow> int \<Rightarrow> nat \<Rightarrow> int \<times> nat" where
  "norm_up a b k =
     (if a \<le> 0 \<or> b * 2 ^ 52 \<le> a then (a, k) else norm_up (2 * a) b (k + 1))"
  by pat_completeness auto
termination
  by (relation "measure (\<lambda>(a, b, k). nat (b * 2 ^ 52 - a))") auto

declare norm_down.simps [simp del] norm_up.simps [simp del]

definition round_pos :: "rat \<Rightarrow> rat" where
  "round_pos x =
     (let a = fst (quotient_of x); b = snd (quotient_of x);
          b' = fst (norm_down a b 0); j = snd (norm_down a b 0);
          a' = fst (norm_up a b' 0); k = snd (norm_up a b' 0)
      in of_int (rhe_div a' b') * 2 ^ j / 2 ^ k)"

definition f64_round :: "rat \<Rightarrow> rat" where
  "f64_round x = (if x < 0 then - round_pos (- x) else round_pos x)"

text \<open>An int64 product wraps around; an int64 is converted to float64 by rounding.\<close>

definition int64 :: "int \<Rightarrow> int" where
  "int64 i = (i + 2 ^ 63) mod 2 ^ 64 - 2 ^ 63"

definition f64_of_int :: "int \<Rightarrow> rat" where
  "f64_of_int i = f64_round (of_int i)"

section \<open>The coverage summary\<close>

text \<open>
  Lines 112 to 118. \<open>groupby\<close> raises when the frame has no sender column and leaves out
  the rows whose sender is missing; \<open>count\<close> counts the values that are not missing and
  \<open>sum\<close> the values that are true. The percentage is the float64 quotient of the int64
  product \<open>100 * covered\<close> by \<open>total\<close>, and \<open>None\<close> where pandas gives \<open>NaN\<close> for 0/0.
\<close>

record summary =
  total :: nat
  covered :: nat
  coverage_pct :: "rat option"

definition group_of :: "row list \<Rightarrow> bool option list \<Rightarrow> string \<Rightarrow> bool option list" where
  "group_of rows results k =
     map snd (filter (\<lambda>(r, c). r ''casa_sender_name'' = Some (Str k)) (zip rows results))"

definition agg :: "bool option list \<Rightarrow> summary" where
  "agg grp =
     (let total = length (filter (\<lambda>c. c \<noteq> None) grp);
          covered = length (filter (\<lambda>c. c = Some True) grp)
      in \<lparr>total = total, covered = covered,
          coverage_pct =
            (if total = 0 then None
             else Some (f64_round (f64_of_int (int64 (100 * int covered))
                                   / f64_of_int (int total))))\<rparr>)"

definition coverage_summary :: "frame \<Rightarrow> bool option list \<Rightarrow> error + (string \<rightharpoonup> summary)" where
  "coverage_summary f results =
     (if ''casa_sender_name'' \<in> set (columns f) then
        Inr (\<lambda>k. if group_of (records f) results k = [] then None
                 else Some (agg (group_of (records f) results k)))
      else Inl (KeyError ''casa_sender_name''))"

text \<open>
  The script from line 46 to line 118, for a given completion order; the registry built by
  lines 50 to 79 is the parameter \<open>templates\<close>.
\<close>

definition main :: "(string \<rightharpoonup> pattern list) \<Rightarrow> frame \<Rightarrow> nat list \<Rightarrow> error + (string \<rightharpoonup> summary)" where
  "main templates messages_df0 order =
     (case canon_senders messages_df0 of
        Inl e \<Rightarrow> Inl e
      | Inr messages_df1 \<Rightarrow>
          (let messages_df = rename_message messages_df1;
               rows = records messages_df;
               results = evaluate_batch templates rows order
           in coverage_summary messages_df results))"

definition summary_at :: "error + (string \<rightharpoonup> summary) \<Rightarrow> string \<Rightarrow> summary option" where
  "summary_at res k = (case res of Inl e \<Rightarrow> None | Inr s \<Rightarrow> s k)"

section \<open>Notions used in the statements and proofs\<close>

text \<open>A text has no leading (trailing) whitespace.\<close>

definition no_lead :: "string \<Rightarrow> bool" where
  "no_lead s \<longleftrightarrow> s = [] \<or> \<not> isspace (hd s)"

definition no_trail :: "string \<Rightarrow> bool" where
  "no_trail s \<longleftrightarrow> s = [] \<or> \<not> isspace (last s)"

text \<open>The rows handed to the batch: senders rewritten, message column renamed.\<close>

definition final_rows :: "frame \<Rightarrow> row list" where
  "final_rows f = records (rename_message (f\<lparr>records := map canon_row (records f)\<rparr>))"

text \<open>What one raw template adds to the list of its sender.\<close>

definition compile_one :: "(string \<Rightarrow> re_error + pattern) \<Rightarrow> cell \<Rightarrow> pattern option" where
  "compile_one rc t =
     (case t of
        NaN \<Rightarrow> None
      | Str s \<Rightarrow> (case rc (normalize s True) of Inl e \<Rightarrow> None | Inr p \<Rightarrow> Some p))"

text \<open>Python's \<open>p in s\<close> for strings.\<close>

fun str_contains :: "string \<Rightarrow> string \<Rightarrow> bool" where
  "str_contains [] p \<longleftrightarrow> p = []"
| "str_contains (c # cs) p \<longleftrightarrow> take (length p) (c # cs) = p \<or> str_contains cs p"

text \<open>
  The compiled form of a literal character, and the text that \<open>normalize\<close> emits for it.
\<close>

definition lit_item :: "char \<Rightarrow> item" where
  "lit_item c = (if c = CHR '' '' then Star Space else One (Lit c))"

definition lit_token :: "char \<Rightarrow> string" where
  "lit_token c = (if c = CHR '' '' then bslash # ''s*'' else escape_char c)"

definition is_placeholder :: "string \<Rightarrow> bool" where
  "is_placeholder part \<longleftrightarrow> startswith part ''<'' \<and> endswith part ''>''"

definition part_items :: "string \<Rightarrow> pattern" where
  "part_items part = (if is_placeholder part then [LazyStar Dot] else map lit_item part)"

definition prepend :: "pattern \<Rightarrow> re_error + pattern \<Rightarrow> re_error + pattern" where
  "prepend is res = (case res of Inl e \<Rightarrow> Inl e | Inr p \<Rightarrow> Inr (is @ p))"

definition ok_next :: "string \<Rightarrow> bool" where
  "ok_next r \<longleftrightarrow> r = [] \<or> (hd r \<noteq> CHR ''*'' \<and> hd r \<noteq> CHR ''?'')"

text \<open>The text has a \<open><\<close> with a \<open>>\<close> somewhere after it.\<close>

fun has_marker :: "string \<Rightarrow> bool" where
  "has_marker [] \<longleftrightarrow> False"
| "has_marker (c # cs) \<longleftrightarrow> (c = CHR ''<'' \<and> CHR ''>'' \<in> set cs) \<or> has_marker cs"

text \<open>\<open>del_spaces t m\<close>: the text \<open>m\<close> is \<open>t\<close> with some of its spaces deleted.\<close>

fun del_spaces :: "string \<Rightarrow> string \<Rightarrow> bool" where
  "del_spaces [] m \<longleftrightarrow> m = []"
| "del_spaces (c # t) [] \<longleftrightarrow> c = CHR '' '' \<and> del_spaces t []"
| "del_spaces (c # t) (x # m) \<longleftrightarrow>
     (c = x \<and> del_spaces t m) \<or> (c = CHR '' '' \<and> del_spaces t (x # m))"

text \<open>Every whitespace character of the text is a space, and no two are adjacent.\<close>

fun single_spaced :: "string \<Rightarrow> bool" where
  "single_spaced [] \<longleftrightarrow> True"
| "single_spaced (c # cs) \<longleftrightarrow>
     (if isspace c then c = CHR '' '' \<and> no_lead cs else True) \<and> single_spaced cs"

text \<open>The placeholder delimiters of a text, in order.\<close>

definition markers :: "string \<Rightarrow> string" where
  "markers s = filter (\<lambda>c. c = CHR ''<'' \<or> c = CHR ''>'') s"

section \<open>Example data\<close>

text \<open>Rows, a registry, frames and sheets.\<close>

definition row_hi :: row where
  "row_hi = [''casa_sender_name'' \<mapsto> Str ''HDFC'', ''message'' \<mapsto> Str ''Hi'']"

definition row_nomsg :: row where
  "row_nomsg = [''casa_sender_name'' \<mapsto> Str ''HDFC'']"

definition row_unknown :: row where
  "row_unknown = [''casa_sender_name'' \<mapsto> Str ''ICICI'', ''message'' \<mapsto> Str ''Hi'']"

definition reg_hi :: "string \<rightharpoonup> pattern list" where
  "reg_hi = [''HDFC'' \<mapsto> [[Bol, One (Lit CHR ''h''), One (Lit CHR ''i''), Eol]]]"

definition row_raw :: row where
  "row_raw = [''casa_sender_name'' \<mapsto> Str '' icici '', ''message'' \<mapsto> Str ''Hi'']"

definition frame_raw :: frame where
  "frame_raw = \<lparr>columns = [''casa_sender_name'', ''message''], records = [row_raw, row_hi]\<rparr>"

definition frame_three :: frame where
  "frame_three =
     \<lparr>columns = [''casa_sender_name'', ''Message''],
      records =
        [[''casa_sender_name'' \<mapsto> Str ''hdfc '', ''Message'' \<mapsto> Str ''Hi''],
         [''casa_sender_name'' \<mapsto> Str ''HDFC'', ''Message'' \<mapsto> Str ''bye''],
         [''casa_sender_name'' \<mapsto> Str '' Hdfc'', ''Message'' \<mapsto> Str '' hi '']]\<rparr>"




section \<open>Properties of the text cleanup\<close>

lemma isspace_not_upper: "isspace c \<Longrightarrow> \<not> isupper c"
  by (auto simp: isspace_def isupper_def)

lemma of_char_lower_char: "isupper c \<Longrightarrow> (of_char (lower_char c) :: nat) = of_char c + 32"
  by (simp add: lower_char_def isupper_def)

lemma isspace_lower_char [simp]: "isspace (lower_char c) = isspace c"
proof (cases "isupper c")
  case True
  then have "(of_char (lower_char c) :: nat) \<ge> 97"
    by (simp add: of_char_lower_char isupper_def)
  then have "\<not> isspace (lower_char c)"
    by (auto simp: isspace_def)
  with True show ?thesis
    using isspace_not_upper by blast
next
  case False
  then show ?thesis by (simp add: lower_char_def)
qed

lemma lower_char_idem [simp]: "lower_char (lower_char c) = lower_char c"
proof (cases "isupper c")
  case True
  then have "\<not> isupper (lower_char c)"
    by (simp add: isupper_def of_char_lower_char)
  then show ?thesis by (simp add: lower_char_def)
next
  case False
  then show ?thesis by (simp add: lower_char_def)
qed

lemma lower_char_nonspace: "\<not> isspace c \<Longrightarrow> lower_char c \<noteq> CHR '' ''"
  using isspace_lower_char [of c] by (auto simp: isspace_def)

lemma isspace_space [simp]: "isspace (CHR '' '')"
  by (simp add: isspace_def)

lemma lower_char_isspace: "isspace c \<Longrightarrow> lower_char c = c"
  by (simp add: lower_char_def isspace_not_upper)

lemma lower_idem: "lower (lower s) = lower s"
  by (simp add: lower_def)

lemma lower_lstrip: "lstrip (lower s) = lower (lstrip s)"
  by (simp add: lstrip_def lower_def dropWhile_map comp_def)

lemma lower_rstrip: "rstrip (lower s) = lower (rstrip s)"
  by (simp add: rstrip_def lower_def dropWhile_map comp_def rev_map)

lemma lower_strip: "strip (lower s) = lower (strip s)"
  by (simp add: strip_def lower_lstrip lower_rstrip)

lemma lower_sub_ws: "sub_ws (lower s) = lower (sub_ws s)"
proof (induction s rule: sub_ws.induct)
  case 1
  then show ?case by (simp add: lower_def)
next
  case (2 c cs)
  show ?case
  proof (cases "isspace c")
    case True
    with 2 show ?thesis
      using lower_lstrip [of cs]
      by (simp add: lower_def lstrip_def lower_char_isspace)
  next
    case False
    with 2 show ?thesis by (simp add: lower_def)
  qed
qed

lemma no_lead_lstrip: "no_lead (lstrip s)"
  unfolding no_lead_def lstrip_def using hd_dropWhile [of isspace s] by blast

lemma lstrip_id: "no_lead s \<Longrightarrow> lstrip s = s"
  by (auto simp: no_lead_def lstrip_def dropWhile_eq_self_iff)

lemma no_trail_rstrip: "no_trail (rstrip s)"
  unfolding no_trail_def rstrip_def
  using hd_dropWhile [of isspace "rev s"] by (auto simp: last_rev)

lemma rstrip_id: "no_trail s \<Longrightarrow> rstrip s = s"
  by (cases s rule: rev_cases) (auto simp: no_trail_def rstrip_def)

lemma rstrip_prefix: "\<exists>w. s = rstrip s @ w"
proof -
  have "rev s = takeWhile isspace (rev s) @ dropWhile isspace (rev s)"
    by simp
  then have "s = rev (dropWhile isspace (rev s)) @ rev (takeWhile isspace (rev s))"
    by (metis rev_append rev_rev_ident)
  then show ?thesis unfolding rstrip_def by blast
qed

lemma no_lead_rstrip: "no_lead s \<Longrightarrow> no_lead (rstrip s)"
proof -
  assume a: "no_lead s"
  obtain w where w: "s = rstrip s @ w" using rstrip_prefix by blast
  show ?thesis
  proof (cases "rstrip s")
    case Nil
    then show ?thesis by (simp add: no_lead_def)
  next
    case (Cons x xs)
    with w have "hd s = x" by (metis hd_append2 list.sel(1) list.distinct(1))
    with a Cons w show ?thesis by (auto simp: no_lead_def)
  qed
qed

lemma strip_stripped: "no_lead (strip s) \<and> no_trail (strip s)"
  by (simp add: strip_def no_trail_rstrip no_lead_rstrip no_lead_lstrip)

lemma strip_id: "no_lead s \<Longrightarrow> no_trail s \<Longrightarrow> strip s = s"
  by (simp add: strip_def lstrip_id rstrip_id)

lemma sub_ws_Nil_iff [simp]: "sub_ws s = [] \<longleftrightarrow> s = []"
  by (cases s) auto

lemma no_lead_sub_ws: "no_lead s \<Longrightarrow> no_lead (sub_ws s)"
  by (cases s) (auto simp: no_lead_def)

lemma last_dropWhile: "dropWhile P xs \<noteq> [] \<Longrightarrow> last (dropWhile P xs) = last xs"
  by (induction xs) (auto split: if_splits)

lemma no_trail_sub_ws: "no_trail s \<Longrightarrow> no_trail (sub_ws s)"
proof (induction s rule: sub_ws.induct)
  case 1
  then show ?case by simp
next
  case (2 c cs)
  show ?case
  proof (cases "isspace c")
    case True
    with 2(3) have cs: "cs \<noteq> []" "\<not> isspace (last cs)"
      by (auto simp: no_trail_def split: if_splits)
    then have d: "dropWhile isspace cs \<noteq> []"
      by (metis dropWhile_eq_Nil_conv last_in_set)
    with cs have "no_trail (dropWhile isspace cs)"
      by (simp add: no_trail_def last_dropWhile)
    with 2(1) True have "no_trail (sub_ws (dropWhile isspace cs))" by simp
    with True d show ?thesis by (auto simp: no_trail_def)
  next
    case False
    show ?thesis
    proof (cases cs)
      case Nil
      with False show ?thesis by (simp add: no_trail_def)
    next
      case (Cons d ds)
      with 2(3) have "no_trail cs" by (simp add: no_trail_def)
      with 2(2) False have nt: "no_trail (sub_ws cs)" by simp
      have ne: "sub_ws cs \<noteq> []" using Cons by simp
      have "sub_ws (c # cs) = c # sub_ws cs" using False by simp
      with nt ne show ?thesis by (simp add: no_trail_def del: sub_ws.simps)
    qed
  qed
qed

lemma sub_ws_idem: "sub_ws (sub_ws s) = sub_ws s"
proof (induction s rule: sub_ws.induct)
  case 1
  then show ?case by simp
next
  case (2 c cs)
  show ?case
  proof (cases "isspace c")
    case True
    have "no_lead (sub_ws (dropWhile isspace cs))"
      using no_lead_sub_ws [OF no_lead_lstrip [of cs]] by (simp add: lstrip_def)
    then have "dropWhile isspace (sub_ws (dropWhile isspace cs)) = sub_ws (dropWhile isspace cs)"
      using lstrip_id by (simp add: lstrip_def)
    with 2(1) True show ?thesis by simp
  next
    case False
    with 2 show ?thesis by simp
  qed
qed

lemma clean_stripped: "no_lead (clean s) \<and> no_trail (clean s)"
  by (simp add: clean_def no_lead_sub_ws no_trail_sub_ws strip_stripped)

lemma clean_idem: "clean (clean s) = clean s"
proof -
  have "clean (clean s) = sub_ws (strip (lower (clean s)))"
    by (simp add: clean_def)
  also have "lower (clean s) = clean s"
    by (simp add: clean_def lower_sub_ws [symmetric] lower_strip [symmetric] lower_idem)
  also have "strip (clean s) = clean s"
    using clean_stripped strip_id by blast
  also have "sub_ws (clean s) = clean s"
    by (simp add: clean_def sub_ws_idem)
  finally show ?thesis .
qed

text \<open>
  C9. \<open>normalize\<close>, called as for a message, is idempotent:
  \<open>normalize(normalize(x)) == normalize(x)\<close> for every text \<open>x\<close>.
\<close>

theorem normalize_idempotent: "normalize (normalize x False) False = normalize x False"
  by (simp add: normalize_def clean_idem)

section \<open>The batch\<close>

lemma collect_length [simp]: "length (collect futs results order) = length results"
  by (induction order arbitrary: results) auto

lemma collect_nth:
  "i < length results \<Longrightarrow>
   collect futs results order ! i =
     (if i \<in> set order then Some (fut_result (futs ! i)) else results ! i)"
proof (induction order arbitrary: results)
  case Nil
  then show ?case by simp
next
  case (Cons idx order)
  then show ?case by (auto simp: nth_list_update)
qed

lemma evaluate_batch_length [simp]:
  "length (evaluate_batch templates rows order) = length rows"
  by (simp add: evaluate_batch_def)

lemma evaluate_batch_nth:
  assumes "set order = {..<length rows}" and "i < length rows"
  shows "evaluate_batch templates rows order ! i
         = Some (fut_result (check_row templates (rows ! i)))"
  using assms by (simp add: evaluate_batch_def collect_nth)

lemma evaluate_batch_eq:
  assumes "set order = {..<length rows}"
  shows "evaluate_batch templates rows order
         = map (\<lambda>row. Some (fut_result (check_row templates row))) rows"
  by (rule nth_equalityI) (simp_all add: evaluate_batch_nth [OF assms])

text \<open>
  C1. For every batch of rows and every order in which the units complete,
  \<open>evaluate_batch\<close> returns one result per row, and the result at index \<open>i\<close> is the
  coverage check of row \<open>i\<close>, or false when that check raised.
\<close>

theorem evaluate_batch_in_order:
  assumes "set order = {..<length rows}"
  shows "evaluate_batch templates rows order
         = map (\<lambda>row. Some (case check_row templates row of Inr b \<Rightarrow> b | Inl e \<Rightarrow> False)) rows"
  using evaluate_batch_eq [OF assms] by (simp add: fut_result_def)

lemma check_row_hi: "check_row reg_hi row_hi = Inr True"
  by code_simp

lemma check_row_nomsg: "check_row reg_hi row_nomsg = Inl (KeyError ''message'')"
  by (simp add: check_row_def reg_hi_def row_nomsg_def)

lemma check_row_unknown: "check_row reg_hi row_unknown = Inr False"
  by (simp add: check_row_def reg_hi_def row_unknown_def)

theorem evaluate_batch_in_order_witness:
  "set [2, 0, 1] = {..<length [row_hi, row_nomsg, row_unknown]} \<and>
   evaluate_batch reg_hi [row_hi, row_nomsg, row_unknown] [2, 0, 1]
     = [Some True, Some False, Some False]"
proof -
  have h: "set [2, 0, 1] = {..<length [row_hi, row_nomsg, row_unknown]}"
    by auto
  show ?thesis
    using h evaluate_batch_in_order [OF h, of reg_hi]
    by (simp add: check_row_hi check_row_nomsg check_row_unknown)
qed

text \<open>
  C7. When the unit of row \<open>j\<close> raises, the batch still returns one result per row, the
  result of row \<open>j\<close> is false, and every row whose check returns has that value as its
  result.
\<close>

theorem failure_isolated:
  assumes "set order = {..<length rows}" and "j < length rows"
    and "check_row templates (rows ! j) = Inl e"
  shows "length (evaluate_batch templates rows order) = length rows \<and>
         evaluate_batch templates rows order ! j = Some False \<and>
         (\<forall>i b. i < length rows \<longrightarrow> check_row templates (rows ! i) = Inr b \<longrightarrow>
            evaluate_batch templates rows order ! i = Some b)"
  using assms by (simp add: evaluate_batch_nth fut_result_def)

theorem failure_isolated_witness:
  "set [2, 1, 0] = {..<length [row_hi, row_nomsg, row_unknown]} \<and>
   (1::nat) < length [row_hi, row_nomsg, row_unknown] \<and>
   check_row reg_hi ([row_hi, row_nomsg, row_unknown] ! 1) = Inl (KeyError ''message'') \<and>
   evaluate_batch reg_hi [row_hi, row_nomsg, row_unknown] [2, 1, 0] ! 1 = Some False \<and>
   evaluate_batch reg_hi [row_hi, row_nomsg, row_unknown] [2, 1, 0] ! 0 = Some True \<and>
   evaluate_batch reg_hi [row_hi, row_nomsg, row_unknown] [2, 1, 0] ! 2 = Some False"
proof -
  let ?rows = "[row_hi, row_nomsg, row_unknown]"
  have h1: "set [2, 1, 0] = {..<length ?rows}" by auto
  have h2: "(1::nat) < length ?rows" by simp
  have h3: "check_row reg_hi (?rows ! 1) = Inl (KeyError ''message'')"
    by (simp add: check_row_nomsg)
  have a: "check_row reg_hi (?rows ! 0) = Inr True" by (simp add: check_row_hi)
  have b: "check_row reg_hi (?rows ! 2) = Inr False" by (simp add: check_row_unknown)
  from failure_isolated [OF h1 h2 h3] a b h1 h2 h3 show ?thesis
    by auto
qed

text \<open>
  C6. A row whose sender key has no entry in the registry is not covered, whatever its
  message is.
\<close>

theorem unknown_sender_not_covered:
  assumes "r ''casa_sender_name'' = Some (Str s)" and "templates (sender_key s) = None"
  shows "check_row templates (canon_row r) = Inr False"
  using assms by (simp add: check_row_def canon_row_def)

theorem unknown_sender_not_covered_witness:
  "row_raw ''casa_sender_name'' = Some (Str '' icici '') \<and>
   reg_hi (sender_key '' icici '') = None \<and>
   check_row reg_hi (canon_row row_raw) = Inr False"
proof -
  have h1: "row_raw ''casa_sender_name'' = Some (Str '' icici '')"
    by (simp add: row_raw_def)
  have h2: "reg_hi (sender_key '' icici '') = None"
    by code_simp
  from unknown_sender_not_covered [of row_raw "'' icici ''" reg_hi, OF h1 h2] h1 h2
  show ?thesis by simp
qed

section \<open>Properties of the rounding\<close>

lemma int64_id: "0 \<le> i \<Longrightarrow> i < 2 ^ 63 \<Longrightarrow> int64 i = i"
  by (simp add: int64_def)

lemma norm_up_scaled:
  "fst (norm_up a b k) * 2 ^ k = a * 2 ^ snd (norm_up a b k)"
proof (induction a b k rule: norm_up.induct)
  case (1 a b k)
  show ?case
  proof (cases "a \<le> 0 \<or> b * 2 ^ 52 \<le> a")
    case True
    then show ?thesis by (simp add: norm_up.simps)
  next
    case False
    from 1 [OF False] have "fst (norm_up (2 * a) b (k + 1)) * 2 ^ k
          = a * 2 ^ snd (norm_up (2 * a) b (k + 1))"
      by simp
    with False show ?thesis by (subst (1 2) norm_up.simps) simp
  qed
qed

lemma norm_up_0: "fst (norm_up a b 0) = a * 2 ^ snd (norm_up a b 0)"
  using norm_up_scaled [of a b 0] by simp

lemma norm_down_small: "a < b * 2 ^ 53 \<Longrightarrow> norm_down a b j = (b, j)"
  by (simp add: norm_down.simps)

lemma rhe_div_le:
  assumes "0 < b" and "a \<le> n * b"
  shows "rhe_div a b \<le> n"
proof -
  have "a div b \<le> (n * b) div b"
    using assms by (intro zdiv_mono1)
  also have "(n * b) div b = n"
    using assms(1) by simp
  finally have q: "a div b \<le> n" .
  show ?thesis
  proof (cases "a div b = n")
    case True
    have "a mod b = a - (a div b) * b"
      by (simp add: minus_div_mult_eq_mod)
    with True assms(2) have "a mod b \<le> 0" by simp
    moreover have "0 \<le> a mod b" using assms(1) by simp
    ultimately have "a mod b = 0" by simp
    with True assms(1) show ?thesis by (simp add: rhe_div_def)
  next
    case False
    with q have "a div b + 1 \<le> n" by simp
    then show ?thesis by (simp add: rhe_div_def Let_def)
  qed
qed

lemma rhe_div_nonneg:
  assumes "0 < b" and "0 \<le> a"
  shows "0 \<le> rhe_div a b"
proof -
  have "0 \<le> a div b" using assms by (simp add: pos_imp_zdiv_nonneg_iff)
  then show ?thesis by (simp add: rhe_div_def Let_def)
qed

lemma rhe_div_one: "rhe_div a 1 = a"
  by (simp add: rhe_div_def)

lemma round_pos_bounds:
  assumes "0 \<le> x" and "x \<le> of_int n" and "n < 2 ^ 53"
  shows "0 \<le> round_pos x" and "round_pos x \<le> of_int n"
proof -
  obtain a b where ab: "quotient_of x = (a, b)" by (cases "quotient_of x")
  then have b: "0 < b" and x: "x = of_int a / of_int b"
    by (simp_all add: quotient_of_denom_pos quotient_of_div)
  from assms(1) x b have a: "0 \<le> a"
    by (simp add: zero_le_divide_iff)
  from assms(2) x b have "(of_int a :: rat) \<le> of_int n * of_int b"
    by (simp add: pos_divide_le_eq)
  then have anb: "a \<le> n * b"
    by (metis of_int_le_iff of_int_mult)
  from assms(3) b have "n * b < 2 ^ 53 * b" by simp
  with anb have "a < b * 2 ^ 53" by (simp add: mult.commute)
  then have nd: "norm_down a b 0 = (b, 0)" by (rule norm_down_small)
  let ?k = "snd (norm_up a b 0)"
  let ?a = "fst (norm_up a b 0)"
  have s: "?a = a * 2 ^ ?k" by (rule norm_up_0)
  have r: "round_pos x = of_int (rhe_div ?a b) / 2 ^ ?k"
    by (simp add: round_pos_def ab nd)
  have "0 \<le> ?a" using a s by simp
  then have "0 \<le> rhe_div ?a b" using b by (intro rhe_div_nonneg)
  then show "0 \<le> round_pos x" by (simp add: r)
  have "?a \<le> (n * 2 ^ ?k) * b"
    using anb s by (simp add: mult.assoc mult.left_commute mult_right_mono)
  then have "rhe_div ?a b \<le> n * 2 ^ ?k" using b by (intro rhe_div_le)
  then have "(of_int (rhe_div ?a b) :: rat) \<le> of_int (n * 2 ^ ?k)"
    by (simp only: of_int_le_iff)
  then show "round_pos x \<le> of_int n"
    by (simp add: r pos_divide_le_eq)
qed

lemma f64_round_bounds:
  assumes "0 \<le> x" and "x \<le> of_int n" and "n < 2 ^ 53"
  shows "0 \<le> f64_round x" and "f64_round x \<le> of_int n"
  using round_pos_bounds [OF assms] assms(1) by (simp_all add: f64_round_def)

lemma f64_round_int:
  assumes "0 \<le> n" and "n < 2 ^ 53"
  shows "f64_round (of_int n) = of_int n"
proof -
  have q: "quotient_of (of_int n :: rat) = (n, 1)" by simp
  from assms(2) have nd: "norm_down n 1 0 = (1, 0)"
    by (intro norm_down_small) simp
  let ?k = "snd (norm_up n 1 0)"
  have s: "fst (norm_up n 1 0) = n * 2 ^ ?k" by (rule norm_up_0)
  have "round_pos (of_int n) = of_int (n * 2 ^ ?k) / 2 ^ ?k"
    by (simp add: round_pos_def q nd s rhe_div_one)
  then have "round_pos (of_int n) = of_int n" by simp
  with assms(1) show ?thesis by (simp add: f64_round_def)
qed

text \<open>
  Below \<open>2^53\<close> the conversions are exact, so the float quotient of two counts is the
  rounded exact quotient.
\<close>

lemma f64_quotient:
  assumes "100 * t < 2 ^ 53" and "c \<le> (t::nat)"
  shows "f64_round (f64_of_int (int64 (100 * int c)) / f64_of_int (int t))
         = f64_round (100 * of_nat c / of_nat t)"
proof -
  have "100 * c < 2 ^ 53"
    using assms by (meson le_less_trans mult_le_mono2)
  then have "int (100 * c) < int (2 ^ 53)"
    by (simp only: of_nat_less_iff)
  then have c: "100 * int c < 2 ^ 53" by simp
  have "t \<le> 100 * t" by simp
  then have "t < 2 ^ 53" using assms(1) by (rule le_less_trans)
  then have "int t < int (2 ^ 53)"
    by (simp only: of_nat_less_iff)
  then have t: "int t < 2 ^ 53" by simp
  have "100 * int c < 2 ^ 63"
    using c by (rule less_le_trans) simp
  then have "int64 (100 * int c) = 100 * int c"
    by (rule int64_id [rotated]) simp
  moreover have "f64_of_int (100 * int c) = of_int (100 * int c)"
    unfolding f64_of_int_def by (rule f64_round_int [OF _ c]) simp
  moreover have "f64_of_int (int t) = of_int (int t)"
    unfolding f64_of_int_def by (rule f64_round_int [OF _ t]) simp
  ultimately show ?thesis by simp
qed

lemma f64_pct_range:
  assumes "c \<le> t" and "1 \<le> (t::nat)"
  shows "0 \<le> f64_round (100 * of_nat c / of_nat t)"
    and "f64_round (100 * of_nat c / of_nat t) \<le> 100"
proof -
  let ?x = "100 * (of_nat c :: rat) / of_nat t"
  have x0: "0 \<le> ?x" by simp
  have "(of_nat c :: rat) \<le> of_nat t" using assms(1) by simp
  moreover have "0 < (of_nat t :: rat)" using assms(2) by simp
  ultimately have "?x \<le> 100" by (simp add: divide_le_eq)
  then have x1: "?x \<le> of_int 100" by simp
  have n: "(100::int) < 2 ^ 53" by simp
  from f64_round_bounds [OF x0 x1 n]
  show "0 \<le> f64_round ?x" and "f64_round ?x \<le> 100" by simp_all
qed

section \<open>Properties of the coverage summary\<close>

lemma canon_row_sender:
  "canon_row r ''casa_sender_name'' = Some (Str k) \<longleftrightarrow>
     (\<exists>s. r ''casa_sender_name'' = Some (Str s) \<and> k = sender_key s)"
proof (cases "r ''casa_sender_name''")
  case None
  then show ?thesis by (simp add: canon_row_def)
next
  case (Some c)
  then show ?thesis by (cases c) (auto simp: canon_row_def)
qed

lemma group_of_Nil_iff:
  assumes "length results = length rows"
  shows "group_of rows results k = [] \<longleftrightarrow>
         (\<forall>r \<in> set rows. r ''casa_sender_name'' \<noteq> Some (Str k))"
proof
  assume e: "group_of rows results k = []"
  show "\<forall>r \<in> set rows. r ''casa_sender_name'' \<noteq> Some (Str k)"
  proof
    fix r assume "r \<in> set rows"
    then obtain c where "(r, c) \<in> set (zip rows results)"
      using assms by (metis in_set_impl_in_set_zip1)
    with e show "r ''casa_sender_name'' \<noteq> Some (Str k)"
      unfolding group_of_def by (auto simp: filter_empty_conv)
  qed
next
  assume "\<forall>r \<in> set rows. r ''casa_sender_name'' \<noteq> Some (Str k)"
  then show "group_of rows results k = []"
    unfolding group_of_def by (auto simp: filter_empty_conv dest: set_zip_leftD)
qed

lemma group_of_subset: "set (group_of rows results k) \<subseteq> set results"
  by (auto simp: group_of_def dest: set_zip_rightD)

lemma group_of_batch_Some:
  assumes "set order = {..<length rows}"
  shows "None \<notin> set (group_of rows (evaluate_batch templates rows order) k)"
  using group_of_subset [of rows "evaluate_batch templates rows order" k]
  by (auto simp: evaluate_batch_eq [OF assms])

lemma agg_counts:
  assumes "grp \<noteq> []" and "None \<notin> set grp"
  shows "total (agg grp) = length grp"
    and "1 \<le> total (agg grp)"
    and "covered (agg grp) \<le> total (agg grp)"
proof -
  have "\<forall>c \<in> set grp. c \<noteq> None"
    using assms(2) by metis
  then have f: "filter (\<lambda>c. c \<noteq> None) grp = grp"
    by (rule filter_True)
  show t: "total (agg grp) = length grp"
    by (simp add: agg_def Let_def f del: not_None_eq)
  from assms(1) have "1 \<le> length grp" by (cases grp) simp_all
  with t show "1 \<le> total (agg grp)" by simp
  have "covered (agg grp) \<le> length grp"
    by (simp add: agg_def Let_def)
  with t show "covered (agg grp) \<le> total (agg grp)" by simp
qed

lemma agg_pct:
  assumes "1 \<le> total (agg grp)" and "covered (agg grp) \<le> total (agg grp)"
    and "100 * total (agg grp) < 2 ^ 53"
  shows "coverage_pct (agg grp)
         = Some (f64_round (100 * of_nat (covered (agg grp)) / of_nat (total (agg grp))))"
proof -
  let ?t = "total (agg grp)" and ?c = "covered (agg grp)"
  have "filter (\<lambda>c. c \<noteq> None) grp \<noteq> []"
    using assms(1) by (auto simp: agg_def Let_def simp del: not_None_eq)
  then have "coverage_pct (agg grp)
        = Some (f64_round (f64_of_int (int64 (100 * int ?c)) / f64_of_int (int ?t)))"
    by (simp add: agg_def Let_def del: not_None_eq)
  then show ?thesis
    by (simp only: f64_quotient [OF assms(3) assms(2)])
qed

lemma rename_row_sender [simp]:
  "rename_row cols r ''casa_sender_name'' = r ''casa_sender_name''"
  by (simp add: rename_row_def)

lemma rename_message_sender_col:
  "''casa_sender_name'' \<in> set (columns (rename_message f))
   \<longleftrightarrow> ''casa_sender_name'' \<in> set (columns f)"
  by (auto simp: rename_message_def)

lemma length_final_rows [simp]: "length (final_rows f) = length (records f)"
  by (simp add: final_rows_def rename_message_def)

lemma final_rows_sender:
  "(\<exists>r \<in> set (final_rows f). r ''casa_sender_name'' = Some (Str k))
   \<longleftrightarrow> (\<exists>r \<in> set (records f). canon_row r ''casa_sender_name'' = Some (Str k))"
  by (auto simp: final_rows_def rename_message_def)

lemma main_eq:
  assumes "''casa_sender_name'' \<in> set (columns f)"
    and "canon_senders f = Inr f'"
  shows "main templates f order =
         Inr (\<lambda>k. if group_of (final_rows f) (evaluate_batch templates (final_rows f) order) k = []
                  then None
                  else Some (agg (group_of (final_rows f)
                                   (evaluate_batch templates (final_rows f) order) k)))"
proof -
  from assms have f': "f' = f\<lparr>records := map canon_row (records f)\<rparr>"
    by (auto simp: canon_senders_def split: if_splits)
  have c: "''casa_sender_name'' \<in> set (columns (rename_message f'))"
    using assms(1) by (simp add: rename_message_sender_col f')
  have r: "records (rename_message f') = final_rows f"
    by (simp add: final_rows_def f')
  show ?thesis
    by (simp add: main_def assms(2) Let_def coverage_summary_def c r
        cong del: if_weak_cong)
qed

lemma main_no_column:
  assumes "''casa_sender_name'' \<notin> set (columns f)"
  shows "main templates f order = Inl (KeyError ''casa_sender_name'')"
proof -
  have "canon_senders f = Inr f" using assms by (simp add: canon_senders_def)
  then show ?thesis
    using assms by (simp add: main_def Let_def coverage_summary_def rename_message_sender_col)
qed

lemma summary_at_Some:
  assumes "summary_at (main templates f order) k = Some s"
  shows "group_of (final_rows f) (evaluate_batch templates (final_rows f) order) k \<noteq> []"
    and "s = agg (group_of (final_rows f) (evaluate_batch templates (final_rows f) order) k)"
proof -
  have c: "''casa_sender_name'' \<in> set (columns f)"
    using assms main_no_column [of f templates order]
    by (cases "''casa_sender_name'' \<in> set (columns f)") (simp_all add: summary_at_def)
  obtain f' where f': "canon_senders f = Inr f'"
    using assms by (cases "canon_senders f") (simp_all add: main_def summary_at_def)
  from assms
  show "group_of (final_rows f) (evaluate_batch templates (final_rows f) order) k \<noteq> []"
    and "s = agg (group_of (final_rows f) (evaluate_batch templates (final_rows f) order) k)"
    unfolding main_eq [OF c f'] by (auto simp: summary_at_def split: if_splits)
qed

text \<open>
  C5. For every entry of the coverage summary the total is at least one, the percentage
  is the float64 nearest to the exact quotient 100 * covered / total, and it lies between
  0 and 100. The group is taken to have fewer than \<open>2^53 / 100\<close> rows, the range in which
  the counts and the product are converted to float64 without rounding.
\<close>

theorem coverage_pct_bounds:
  assumes "set order = {..<length (records f)}"
    and "summary_at (main templates f order) k = Some s"
    and "100 * total s < 2 ^ 53"
  shows "1 \<le> total s \<and> covered s \<le> total s \<and>
         coverage_pct s = Some (f64_round (100 * of_nat (covered s) / of_nat (total s))) \<and>
         0 \<le> f64_round (100 * of_nat (covered s) / of_nat (total s)) \<and>
         f64_round (100 * of_nat (covered s) / of_nat (total s)) \<le> 100"
proof -
  let ?rows = "final_rows f"
  let ?grp = "group_of ?rows (evaluate_batch templates ?rows order) k"
  have o: "set order = {..<length ?rows}" using assms(1) by simp
  note ne = summary_at_Some(1) [OF assms(2)] and s = summary_at_Some(2) [OF assms(2)]
  have some: "None \<notin> set ?grp" by (rule group_of_batch_Some [OF o])
  note b = agg_counts [OF ne some]
  have p: "coverage_pct (agg ?grp)
           = Some (f64_round (100 * of_nat (covered (agg ?grp)) / of_nat (total (agg ?grp))))"
    using assms(3) unfolding s by (intro agg_pct b)
  from b(2,3) p f64_pct_range [OF b(3) b(2)] show ?thesis
    unfolding s by blast
qed

theorem coverage_pct_bounds_witness:
  "set [2, 0, 1] = {..<length (records frame_three)} \<and>
   summary_at (main reg_hi frame_three [2, 0, 1]) ''HDFC''
     = Some \<lparr>total = 3, covered = 2,
             coverage_pct = Some (4691249611844267 / 70368744177664)\<rparr> \<and>
   f64_round (100 * of_nat 2 / of_nat 3) = 4691249611844267 / 70368744177664 \<and>
   (4691249611844267 / 70368744177664 :: rat) \<le> 100"
proof -
  have h1: "set [2, 0, 1] = {..<length (records frame_three)}"
    by (auto simp: frame_three_def)
  have h2: "summary_at (main reg_hi frame_three [2, 0, 1]) ''HDFC''
     = Some \<lparr>total = 3, covered = 2,
             coverage_pct = Some (4691249611844267 / 70368744177664)\<rparr>"
    by code_simp
  have h3: "100 * total \<lparr>total = 3, covered = 2,
             coverage_pct = Some (4691249611844267 / 70368744177664)\<rparr> < 2 ^ 53"
    by simp
  from coverage_pct_bounds [OF h1 h2 h3] h1 h2 show ?thesis by simp
qed

lemma summary_at_keys:
  assumes "''casa_sender_name'' \<in> set (columns f)"
  shows "summary_at (main templates f order) k \<noteq> None \<longleftrightarrow>
         (\<exists>r \<in> set (records f). canon_row r ''casa_sender_name'' = Some (Str k))"
proof (cases "canon_senders f")
  case (Inl e)
  then have n: "\<not> list_ex (\<lambda>r. is_str (r ''casa_sender_name'')) (records f)"
    by (auto simp: canon_senders_def split: if_splits)
  have "canon_row r ''casa_sender_name'' \<noteq> Some (Str k)" if "r \<in> set (records f)" for r
  proof -
    from n that have "\<not> is_str (r ''casa_sender_name'')"
      by (auto simp: list_ex_iff)
    then show ?thesis
      by (auto simp: is_str_def canon_row_def split: option.splits cell.splits)
  qed
  with Inl show ?thesis
    by (auto simp: main_def summary_at_def)
next
  case (Inr f')
  have l: "length (evaluate_batch templates (final_rows f) order) = length (final_rows f)"
    by simp
  show ?thesis
    unfolding main_eq [OF assms Inr] final_rows_sender [symmetric]
    by (auto simp: summary_at_def group_of_Nil_iff [OF l])
qed

text \<open>
  C3, as amended. The keys of the coverage summary are the upper-cased, stripped sender
  values (the values that the load step has written over the sender column), not the
  spellings of the input.
\<close>

theorem summary_keys_canonical:
  assumes "''casa_sender_name'' \<in> set (columns f)"
  shows "summary_at (main templates f order) k \<noteq> None \<longleftrightarrow>
         (\<exists>s. k = sender_key s \<and>
              (\<exists>r \<in> set (records f). r ''casa_sender_name'' = Some (Str s)))"
  unfolding summary_at_keys [OF assms] canon_row_sender by blast

theorem summary_keys_canonical_witness:
  "''casa_sender_name'' \<in> set (columns frame_raw) \<and>
   summary_at (main reg_hi frame_raw [1, 0]) (sender_key '' icici '') \<noteq> None"
proof -
  have h: "''casa_sender_name'' \<in> set (columns frame_raw)"
    by (simp add: frame_raw_def)
  have "\<exists>r \<in> set (records frame_raw). r ''casa_sender_name'' = Some (Str '' icici '')"
    by (simp add: frame_raw_def row_raw_def)
  with summary_keys_canonical [OF h, of reg_hi "[1, 0]" "sender_key '' icici ''"] h
  show ?thesis by blast
qed

text \<open>
  C3, as stated, fails: the input spells the sender \<open>'' icici ''\<close>; the summary has no such
  key, and its key \<open>''ICICI''\<close> is not a spelling of the input.
\<close>

theorem summary_keys_not_raw:
  "row_raw \<in> set (records frame_raw) \<and>
   row_raw ''casa_sender_name'' = Some (Str '' icici '') \<and>
   summary_at (main reg_hi frame_raw [1, 0]) '' icici '' = None \<and>
   summary_at (main reg_hi frame_raw [1, 0]) ''ICICI''
     = Some \<lparr>total = 1, covered = 0, coverage_pct = Some 0\<rparr>"
proof -
  have "row_raw \<in> set (records frame_raw)" by (simp add: frame_raw_def)
  moreover have "row_raw ''casa_sender_name'' = Some (Str '' icici '')"
    by (simp add: row_raw_def)
  moreover have "summary_at (main reg_hi frame_raw [1, 0]) '' icici '' = None"
    by code_simp
  moreover have "summary_at (main reg_hi frame_raw [1, 0]) ''ICICI''
     = Some \<lparr>total = 1, covered = 0, coverage_pct = Some 0\<rparr>"
    by code_simp
  ultimately show ?thesis by blast
qed

section \<open>Sender keys\<close>

lemma str_replace_Nil: "old \<noteq> [] \<Longrightarrow> str_replace old new [] = []"
  by (simp add: str_replace.simps)

lemma str_replace_hit:
  "old \<noteq> [] \<Longrightarrow> str_replace old new (old @ s) = new @ str_replace old new s"
  by (subst str_replace.simps) simp

lemma str_replace_miss:
  "old \<noteq> [] \<Longrightarrow> take (length old) (c # s) \<noteq> old \<Longrightarrow>
   str_replace old new (c # s) = c # str_replace old new s"
  by (subst str_replace.simps) simp

lemma str_replace_absent_char: "a \<notin> set s \<Longrightarrow> str_replace [a] new s = s"
proof (induction s)
  case Nil
  then show ?case by (simp add: str_replace_Nil)
next
  case (Cons c s)
  then have "take (length [a]) (c # s) \<noteq> [a]" by auto
  then have "str_replace [a] new (c # s) = c # str_replace [a] new s"
    by (intro str_replace_miss) simp_all
  with Cons show ?case by simp
qed

lemma xlsx_no_straddle:
  assumes "take (length ''.xlsx'') (c # cs @ ''.xlsx'') = ''.xlsx''"
  shows "take (length ''.xlsx'') (c # cs) = ''.xlsx''"
proof (cases "4 \<le> length cs")
  case True
  then have "take (length ''.xlsx'') (c # cs @ ''.xlsx'') = take (length ''.xlsx'') (c # cs)"
    by simp
  with assms show ?thesis by simp
next
  case False
  let ?n = "length cs"
  have "(c # cs @ ''.xlsx'') ! Suc ?n = ''.xlsx'' ! Suc ?n"
  proof -
    have "take (length ''.xlsx'') (c # cs @ ''.xlsx'') ! Suc ?n = (c # cs @ ''.xlsx'') ! Suc ?n"
      using False by (intro nth_take) simp
    with assms show ?thesis by simp
  qed
  then have dot: "''.xlsx'' ! Suc ?n = CHR ''.''"
    by (simp add: nth_append)
  from False have "?n = 0 \<or> ?n = 1 \<or> ?n = 2 \<or> ?n = 3" by arith
  then have "''.xlsx'' ! Suc ?n \<noteq> CHR ''.''"
    by (elim disjE) (simp_all add: numeral_2_eq_2 numeral_3_eq_3)
  with dot show ?thesis by contradiction
qed

lemma remove_xlsx_suffix:
  "\<not> str_contains s ''.xlsx'' \<Longrightarrow> str_replace ''.xlsx'' [] (s @ ''.xlsx'') = s"
proof (induction s)
  case Nil
  show ?case
    using str_replace_hit [of "''.xlsx''" "[]" "[]"] by (simp add: str_replace_Nil)
next
  case (Cons c s)
  from Cons.prems have "\<not> (take (length ''.xlsx'') (c # s) = ''.xlsx'' \<or> str_contains s ''.xlsx'')"
    unfolding str_contains.simps .
  then have a: "take (length ''.xlsx'') (c # s) \<noteq> ''.xlsx''"
    and b: "\<not> str_contains s ''.xlsx''"
    by blast+
  from a have "take (length ''.xlsx'') (c # s @ ''.xlsx'') \<noteq> ''.xlsx''"
    using xlsx_no_straddle [of c s] by blast
  then have "str_replace ''.xlsx'' [] (c # s @ ''.xlsx'')
             = c # str_replace ''.xlsx'' [] (s @ ''.xlsx'')"
    by (intro str_replace_miss) simp_all
  with Cons.IH [OF b] show ?case by simp
qed

lemma upper_char_underscore: "upper_char c = CHR ''_'' \<longleftrightarrow> c = CHR ''_''"
proof (cases "islower c")
  case True
  then have "(of_char c :: nat) - 32 < 256"
    unfolding islower_def by arith
  then have "(of_char (upper_char c) :: nat) = of_char c - 32"
    using True by (simp add: upper_char_def)
  with True have "(of_char (upper_char c) :: nat) \<le> 90"
    unfolding islower_def by arith
  then have "upper_char c \<noteq> CHR ''_''" by auto
  moreover from True have "c \<noteq> CHR ''_''" by (auto simp: islower_def)
  ultimately show ?thesis by simp
next
  case False
  then show ?thesis by (simp add: upper_char_def)
qed

text \<open>
  C2, as amended. The sender of a message is upper-cased and stripped; the sender of a
  template file is the file name with \<open>.xlsx\<close> removed, upper-cased, with every underscore
  turned into a space, then stripped; neither collapses inner whitespace. For a sender
  string \<open>s\<close> that contains no underscore and no \<open>.xlsx\<close>, the key of the file \<open>s.xlsx\<close> is the
  key of the message sender \<open>s\<close>.
\<close>

theorem sender_keys_agree:
  assumes "CHR ''_'' \<notin> set s" and "\<not> str_contains s ''.xlsx''"
  shows "bank_name (s @ ''.xlsx'') = sender_key s"
proof -
  have "\<And>x. x \<in> set s \<Longrightarrow> upper_char x \<noteq> CHR ''_''"
    using assms(1) upper_char_underscore by metis
  then have "CHR ''_'' \<notin> set (upper s)"
    unfolding upper_def by (metis (no_types, lifting) imageE set_map)
  then have "str_replace ''_'' '' '' (upper s) = upper s"
    by (rule str_replace_absent_char)
  then show ?thesis
    by (simp add: bank_name_def sender_key_def remove_xlsx_suffix [OF assms(2)])
qed

theorem sender_keys_agree_witness:
  "CHR ''_'' \<notin> set '' Hdfc Bank'' \<and> \<not> str_contains '' Hdfc Bank'' ''.xlsx'' \<and>
   bank_name ('' Hdfc Bank'' @ ''.xlsx'') = sender_key '' Hdfc Bank'' \<and>
   sender_key '' Hdfc Bank'' = ''HDFC BANK''"
proof -
  have h1: "CHR ''_'' \<notin> set '' Hdfc Bank''" by simp
  have h2: "\<not> str_contains '' Hdfc Bank'' ''.xlsx''" by simp
  have "sender_key '' Hdfc Bank'' = ''HDFC BANK''" by code_simp
  with sender_keys_agree [OF h1 h2] h1 h2 show ?thesis by blast
qed

text \<open>
  C2, as stated, fails: for the sender \<open>A_B\<close> the message key keeps the underscore and the
  key of the file \<open>A_B.xlsx\<close> has a space; and a run of spaces inside a sender is kept.
\<close>

theorem sender_keys_differ:
  "sender_key ''A_B'' = ''A_B'' \<and> bank_name ''A_B.xlsx'' = ''A B'' \<and>
   sender_key ''A  B'' = ''A  B''"
  by code_simp

section \<open>The pattern text of a literal segment\<close>

lemma re_escape_Cons: "re_escape (c # cs) = escape_char c @ re_escape cs"
  by (simp add: re_escape_def)

lemma re_special_space [simp]: "re_special (CHR '' '')"
  by (simp add: re_special_def)

lemma re_special_bslash [simp]: "re_special bslash"
  by (simp add: re_special_def)

lemma bslash_neq_space [simp]: "bslash \<noteq> CHR '' ''" "CHR '' '' \<noteq> bslash"
  by (simp_all add: bslash_def)

lemma re_escape_hd: "re_escape cs = [] \<or> hd (re_escape cs) \<noteq> CHR '' ''"
  by (cases cs) (auto simp: re_escape_Cons escape_char_def re_escape_def)

lemma replace_escaped_space:
  "str_replace [bslash, CHR '' ''] new (re_escape part)
   = concat (map (\<lambda>c. if c = CHR '' '' then new else escape_char c) part)"
proof (induction part)
  case Nil
  then show ?case by (simp add: re_escape_def str_replace_Nil)
next
  case (Cons c cs)
  let ?old = "[bslash, CHR '' '']"
  let ?r = "re_escape cs"
  have nohit: "take (length ?old) (x # ?r) \<noteq> ?old" for x
    using re_escape_hd [of cs] by (cases ?r) auto
  show ?case
  proof (cases "c = CHR '' ''")
    case True
    then have "re_escape (c # cs) = ?old @ ?r"
      by (simp add: re_escape_Cons escape_char_def)
    then show ?thesis
      using Cons True by (simp add: str_replace_hit del: append.simps)
  next
    case False
    show ?thesis
    proof (cases "re_special c")
      case True
      have "str_replace ?old new (bslash # c # ?r) = bslash # str_replace ?old new (c # ?r)"
        using False by (intro str_replace_miss) simp_all
      also have "str_replace ?old new (c # ?r) = c # str_replace ?old new ?r"
        using nohit by (intro str_replace_miss) simp_all
      finally show ?thesis
        using Cons True False by (simp add: re_escape_Cons escape_char_def)
    next
      case nsp: False
      then have "c \<noteq> bslash" by auto
      then have "str_replace ?old new (c # ?r) = c # str_replace ?old new ?r"
        by (intro str_replace_miss) simp_all
      then show ?thesis
        using Cons nsp False by (simp add: re_escape_Cons escape_char_def)
    qed
  qed
qed

lemma lit_token_no_space: "CHR '' '' \<notin> set (lit_token c)"
  by (auto simp: lit_token_def escape_char_def)

lemma literal_pattern:
  "str_replace '' '' (bslash # ''s*'')
     (str_replace [bslash, CHR '' ''] (bslash # ''s*'') (re_escape part))
   = concat (map lit_token part)"
proof -
  have "str_replace [bslash, CHR '' ''] (bslash # ''s*'') (re_escape part)
        = concat (map lit_token part)"
    unfolding replace_escaped_space lit_token_def ..
  moreover have "CHR '' '' \<notin> set (concat (map lit_token part))"
    using lit_token_no_space by auto
  ultimately show ?thesis
    by (simp add: str_replace_absent_char)
qed

lemma part_pattern_eq:
  "part_pattern part = (if is_placeholder part then ''.*?'' else concat (map lit_token part))"
  by (simp add: part_pattern_def is_placeholder_def literal_pattern)

section \<open>Every pattern text of \<open>normalize\<close> compiles\<close>

lemma re_parse_escaped:
  "re_parse (bslash # e # r) =
     (if e = CHR ''s'' then cons_item (fst (quant Space r)) (re_parse (snd (quant Space r)))
      else if isalnum e then Inl Unsupported
      else cons_item (fst (quant (Lit e) r)) (re_parse (snd (quant (Lit e) r))))"
  by (simp add: bslash_def del: quant.simps)

lemma re_parse_plain:
  assumes "\<not> re_special c"
  shows "re_parse (c # r) = cons_item (fst (quant (Lit c) r)) (re_parse (snd (quant (Lit c) r)))"
  using assms by (auto simp: re_special_def simp del: quant.simps)

lemma special_not_alnum:
  assumes "re_special c"
  shows "\<not> isalnum c" "c \<noteq> CHR ''s''"
  using assms by (auto simp: re_special_def isalnum_def isupper_def islower_def bslash_def)

lemma quant_One: "ok_next r \<Longrightarrow> quant a r = (One a, r)"
  by (cases r) (auto simp: ok_next_def)

lemma quant_Star: "ok_next r \<Longrightarrow> quant a (CHR ''*'' # r) = (Star a, r)"
  by (cases r) (auto simp: ok_next_def)

lemma parse_token:
  assumes "ok_next r"
  shows "re_parse (lit_token c @ r) = cons_item (lit_item c) (re_parse r)"
proof (cases "c = CHR '' ''")
  case True
  then show ?thesis
    by (simp add: lit_token_def lit_item_def re_parse_escaped quant_Star [OF assms]
        del: re_parse.simps quant.simps)
next
  case False
  show ?thesis
  proof (cases "re_special c")
    case True
    with False show ?thesis
      by (simp add: lit_token_def lit_item_def escape_char_def re_parse_escaped
          special_not_alnum quant_One [OF assms] del: re_parse.simps quant.simps)
  next
    case nsp: False
    with False show ?thesis
      by (simp add: lit_token_def lit_item_def escape_char_def re_parse_plain
          quant_One [OF assms] del: re_parse.simps quant.simps)
  qed
qed

lemma not_special_plain:
  assumes "\<not> re_special c"
  shows "c \<noteq> CHR ''*''" "c \<noteq> CHR ''?''"
  using assms by (auto simp: re_special_def)

lemma bslash_plain: "bslash \<noteq> CHR ''*''" "bslash \<noteq> CHR ''?''"
  by (simp_all add: bslash_def)

lemma ok_next_token: "ok_next (lit_token c @ r)"
  using not_special_plain [of c]
  by (auto simp: ok_next_def lit_token_def escape_char_def bslash_plain)

lemma ok_next_tokens: "ok_next r \<Longrightarrow> ok_next (concat (map lit_token cs) @ r)"
  by (cases cs) (simp_all add: ok_next_token)

lemma prepend_Nil [simp]: "prepend [] res = res"
  by (simp add: prepend_def split: sum.splits)

lemma prepend_Cons: "prepend (i # is) res = cons_item i (prepend is res)"
  by (simp add: prepend_def cons_item_def split: sum.splits)

lemma prepend_append: "prepend (xs @ ys) res = prepend xs (prepend ys res)"
  by (simp add: prepend_def split: sum.splits)

lemma parse_tokens:
  assumes "ok_next r"
  shows "re_parse (concat (map lit_token part) @ r) = prepend (map lit_item part) (re_parse r)"
proof (induction part)
  case Nil
  then show ?case by simp
next
  case (Cons c cs)
  have "re_parse (lit_token c @ concat (map lit_token cs) @ r)
        = cons_item (lit_item c) (re_parse (concat (map lit_token cs) @ r))"
    by (rule parse_token [OF ok_next_tokens [OF assms]])
  with Cons show ?case by (simp add: prepend_Cons)
qed

lemma parse_wildcard: "re_parse (''.*?'' @ r) = cons_item (LazyStar Dot) (re_parse r)"
  by (simp add: bslash_def)

lemma ok_next_part: "ok_next r \<Longrightarrow> ok_next (part_pattern part @ r)"
  by (auto simp: part_pattern_eq ok_next_tokens) (simp add: ok_next_def)

lemma ok_next_parts: "ok_next r \<Longrightarrow> ok_next (concat (map part_pattern parts) @ r)"
  by (induction parts) (simp_all add: ok_next_part)

lemma parse_part:
  assumes "ok_next r"
  shows "re_parse (part_pattern part @ r) = prepend (part_items part) (re_parse r)"
proof (cases "is_placeholder part")
  case True
  then show ?thesis
    using parse_wildcard [of r] by (simp add: part_pattern_eq part_items_def prepend_Cons)
next
  case False
  then show ?thesis
    by (simp add: part_pattern_eq part_items_def parse_tokens [OF assms])
qed

lemma parse_parts:
  assumes "ok_next r"
  shows "re_parse (concat (map part_pattern parts) @ r)
         = prepend (concat (map part_items parts)) (re_parse r)"
proof (induction parts)
  case Nil
  then show ?case by simp
next
  case (Cons p ps)
  have "re_parse (part_pattern p @ concat (map part_pattern ps) @ r)
        = prepend (part_items p) (re_parse (concat (map part_pattern ps) @ r))"
    by (rule parse_part [OF ok_next_parts [OF assms]])
  with Cons show ?case by (simp add: prepend_append)
qed

lemma compile_normalize:
  "re_compile (normalize t True)
   = Inr (Bol # concat (map part_items (re_split_ph (clean t))) @ [Eol])"
proof -
  have e: "re_parse ''$'' = Inr [Eol]"
    by (simp add: cons_item_def)
  have "ok_next ''$''" by (simp add: ok_next_def)
  from parse_parts [OF this, of "re_split_ph (clean t)"] e
  show ?thesis
    by (simp add: re_compile_def normalize_def Let_def cons_item_def prepend_def)
qed

section \<open>Unbalanced placeholder markers\<close>

lemma find_gt_None: "CHR ''>'' \<notin> set v \<Longrightarrow> find_gt v = None"
  by (induction v) auto

lemma find_gt_Some:
  "find_gt cs = Some (b, r) \<Longrightarrow> cs = b @ CHR ''>'' # r \<and> CHR ''>'' \<notin> set b"
  by (induction cs arbitrary: b) (auto split: if_splits option.splits)

lemma split_ph_no_gt: "CHR ''>'' \<notin> set v \<Longrightarrow> split_ph lit v = [lit @ v]"
proof (induction v arbitrary: lit)
  case Nil
  then show ?case by simp
next
  case (Cons c v)
  then have "find_gt v = None" by (simp add: find_gt_None)
  with Cons show ?case by simp
qed

lemma first_gt_before:
  assumes "b @ CHR ''>'' # r = u @ CHR ''<'' # v" and "CHR ''>'' \<notin> set v"
  shows "\<exists>u'. r = u' @ CHR ''<'' # v"
proof -
  from assms(1) obtain z where
    "(b = u @ z \<and> z @ CHR ''>'' # r = CHR ''<'' # v) \<or>
     (b @ z = u \<and> CHR ''>'' # r = z @ CHR ''<'' # v)"
    by (auto simp: append_eq_append_conv2)
  then show ?thesis
  proof
    assume a: "b = u @ z \<and> z @ CHR ''>'' # r = CHR ''<'' # v"
    then have "CHR ''>'' \<in> set v"
      by (cases z) auto
    with assms(2) show ?thesis by contradiction
  next
    assume a: "b @ z = u \<and> CHR ''>'' # r = z @ CHR ''<'' # v"
    then show ?thesis by (cases z) auto
  qed
qed

lemma split_ph_unbalanced:
  assumes "CHR ''>'' \<notin> set v"
  shows "s = u @ CHR ''<'' # v \<Longrightarrow> \<exists>ps w. split_ph lit s = ps @ [w @ CHR ''<'' # v]"
proof (induction lit s arbitrary: u rule: split_ph.induct)
  case (1 lit)
  then show ?case by simp
next
  case (2 lit c cs)
  show ?case
  proof (cases u)
    case Nil
    with 2(4) have c: "c = CHR ''<''" and cs: "cs = v" by simp_all
    with assms have "find_gt cs = None" by (simp add: find_gt_None)
    with c cs assms have "split_ph lit (c # cs) = [] @ [lit @ CHR ''<'' # v]"
      by (simp add: split_ph_no_gt)
    then show ?thesis by blast
  next
    case (Cons d u')
    with 2(4) have cs: "cs = u' @ CHR ''<'' # v" by simp
    show ?thesis
    proof (cases "c = CHR ''<''")
      case True
      show ?thesis
      proof (cases "find_gt cs")
        case None
        from 2(1) [OF True None cs] obtain ps w
          where "split_ph (lit @ [c]) cs = ps @ [w @ CHR ''<'' # v]" by blast
        with True None show ?thesis by simp
      next
        case (Some br)
        obtain b r where br: "br = (b, r)" by (cases br)
        from find_gt_Some [of cs b r] Some br
        have "cs = b @ CHR ''>'' # r" by simp
        with cs first_gt_before [OF _ assms, of b r u'] obtain u''
          where "r = u'' @ CHR ''<'' # v" by auto
        from 2(2) [OF True Some br [symmetric] this] obtain ps w
          where "split_ph [] r = ps @ [w @ CHR ''<'' # v]" by blast
        with True Some br
        have "split_ph lit (c # cs) = (lit # (CHR ''<'' # b @ ''>'') # ps) @ [w @ CHR ''<'' # v]"
          by simp
        then show ?thesis by blast
      qed
    next
      case False
      from 2(3) [OF False cs] obtain ps w
        where "split_ph (lit @ [c]) cs = ps @ [w @ CHR ''<'' # v]" by blast
      with False show ?thesis by simp
    qed
  qed
qed

lemma unbalanced_not_placeholder:
  assumes "CHR ''>'' \<notin> set v"
  shows "\<not> is_placeholder (w @ CHR ''<'' # v)"
proof -
  have "last (w @ CHR ''<'' # v) \<noteq> CHR ''>''"
    using assms by (cases v rule: rev_cases) auto
  moreover have "endswith s ''>'' \<Longrightarrow> last s = CHR ''>''" for s
    by (cases s rule: rev_cases) (auto simp: endswith_def)
  ultimately show ?thesis
    unfolding is_placeholder_def by blast
qed

lemma lstrip_append_nonspace:
  "\<not> isspace c \<Longrightarrow> lstrip (a @ c # b) = lstrip a @ c # b"
  by (simp add: lstrip_def dropWhile_append3)

lemma rstrip_append_nonspace:
  "\<not> isspace c \<Longrightarrow> rstrip (a @ c # b) = a @ c # rstrip b"
  by (simp add: rstrip_def dropWhile_append3)

lemma sub_ws_append_nonspace:
  "\<not> isspace c \<Longrightarrow> sub_ws (a @ c # b) = sub_ws a @ c # sub_ws b"
proof (induction a rule: sub_ws.induct)
  case 1
  then show ?case by simp
next
  case (2 x xs)
  then show ?case by (simp add: dropWhile_append3)
qed

lemma lt_not_space [simp]: "\<not> isspace (CHR ''<'')"
  by (simp add: isspace_def)

lemma lower_char_lt [simp]: "lower_char (CHR ''<'') = CHR ''<''"
  by (simp add: lower_char_def isupper_def)

lemma clean_around_lt:
  "clean (u @ CHR ''<'' # v)
   = sub_ws (lstrip (lower u)) @ CHR ''<'' # sub_ws (rstrip (lower v))"
  by (simp add: clean_def strip_def lower_def lstrip_append_nonspace
      rstrip_append_nonspace sub_ws_append_nonspace)

lemma set_sub_ws: "set (sub_ws s) \<subseteq> insert (CHR '' '') (set s)"
proof (induction s rule: sub_ws.induct)
  case 1
  then show ?case by simp
next
  case (2 c cs)
  then show ?case using set_dropWhileD [of _ isspace cs] by (auto split: if_splits)
qed

lemma set_rstrip: "set (rstrip s) \<subseteq> set s"
  unfolding rstrip_def using set_dropWhileD [of _ isspace "rev s"] by auto

lemma lower_char_gt: "lower_char c = CHR ''>'' \<longleftrightarrow> c = CHR ''>''"
proof (cases "isupper c")
  case True
  then have "(of_char (lower_char c) :: nat) \<ge> 97"
    by (simp add: of_char_lower_char isupper_def)
  then have "lower_char c \<noteq> CHR ''>''" by auto
  moreover from True have "c \<noteq> CHR ''>''" by (auto simp: isupper_def)
  ultimately show ?thesis by simp
next
  case False
  then show ?thesis by (simp add: lower_char_def)
qed

lemma gt_notin_clean_tail:
  assumes "CHR ''>'' \<notin> set v"
  shows "CHR ''>'' \<notin> set (sub_ws (rstrip (lower v)))"
proof -
  have "\<And>x. x \<in> set v \<Longrightarrow> lower_char x \<noteq> CHR ''>''"
    using assms lower_char_gt by metis
  then have "CHR ''>'' \<notin> set (lower v)"
    unfolding lower_def by (metis (no_types, lifting) imageE set_map)
  then have "CHR ''>'' \<notin> set (rstrip (lower v))"
    using set_rstrip by blast
  then show ?thesis
    using set_sub_ws [of "rstrip (lower v)"] by auto
qed

text \<open>
  C10. A template with a \<open><\<close> after which no \<open>>\<close> comes compiles: the \<open><\<close> goes through the
  escaping branch into the pattern text, and the compiled pattern has it, and all that
  follows it, as literal items before the closing anchor.
\<close>

theorem unbalanced_marker_literal:
  assumes "CHR ''>'' \<notin> set v"
  shows "\<exists>x p. normalize (u @ CHR ''<'' # v) True
                 = ''^'' @ x @ escape_char (CHR ''<'') @
                   concat (map lit_token (sub_ws (rstrip (lower v)))) @ ''$'' \<and>
               re_compile (normalize (u @ CHR ''<'' # v) True)
                 = Inr (Bol # p @ One (Lit (CHR ''<'')) #
                        map lit_item (sub_ws (rstrip (lower v))) @ [Eol])"
proof -
  let ?v = "sub_ws (rstrip (lower v))"
  let ?u = "sub_ws (lstrip (lower u))"
  have gt: "CHR ''>'' \<notin> set ?v" by (rule gt_notin_clean_tail [OF assms])
  have c: "clean (u @ CHR ''<'' # v) = ?u @ CHR ''<'' # ?v" by (rule clean_around_lt)
  from split_ph_unbalanced [OF gt refl, of "[]" ?u] obtain ps w
    where sp: "re_split_ph (?u @ CHR ''<'' # ?v) = ps @ [w @ CHR ''<'' # ?v]"
    unfolding re_split_ph_def by blast
  note np = unbalanced_not_placeholder [OF gt, of w]
  have "part_pattern (w @ CHR ''<'' # ?v)
        = concat (map lit_token w) @ escape_char (CHR ''<'') @ concat (map lit_token ?v)"
    using np by (simp add: part_pattern_eq lit_token_def)
  then have ptext: "normalize (u @ CHR ''<'' # v) True
        = ''^'' @ (concat (map part_pattern ps) @ concat (map lit_token w)) @
          escape_char (CHR ''<'') @ concat (map lit_token ?v) @ ''$''"
    by (simp add: normalize_def Let_def c sp)
  have "part_items (w @ CHR ''<'' # ?v)
        = map lit_item w @ One (Lit (CHR ''<'')) # map lit_item ?v"
    using np by (simp add: part_items_def lit_item_def)
  then have "re_compile (normalize (u @ CHR ''<'' # v) True)
        = Inr (Bol # (concat (map part_items ps) @ map lit_item w) @
               One (Lit (CHR ''<'')) # map lit_item ?v @ [Eol])"
    by (simp add: compile_normalize c sp)
  with ptext show ?thesis by blast
qed

theorem unbalanced_marker_literal_witness:
  "CHR ''>'' \<notin> set '' C '' \<and>
   normalize (''A<x> b'' @ CHR ''<'' # '' C '') True
     = ''^'' @ (''a.*?'' @ bslash # ''s*b'') @ ''<'' @ (bslash # ''s*c'') @ ''$'' \<and>
   re_compile (normalize (''A<x> b'' @ CHR ''<'' # '' C '') True)
     = Inr (Bol # [One (Lit CHR ''a''), LazyStar Dot, Star Space, One (Lit CHR ''b'')] @
            One (Lit (CHR ''<'')) # [Star Space, One (Lit CHR ''c'')] @ [Eol])"
proof -
  have h: "CHR ''>'' \<notin> set '' C ''" by simp
  have "normalize (''A<x> b'' @ CHR ''<'' # '' C '') True
     = ''^'' @ (''a.*?'' @ bslash # ''s*b'') @ ''<'' @ (bslash # ''s*c'') @ ''$''"
    by code_simp
  moreover have "re_compile (normalize (''A<x> b'' @ CHR ''<'' # '' C '') True)
     = Inr (Bol # [One (Lit CHR ''a''), LazyStar Dot, Star Space, One (Lit CHR ''b'')] @
            One (Lit (CHR ''<'')) # [Star Space, One (Lit CHR ''c'')] @ [Eol])"
    by code_simp
  ultimately show ?thesis
    using unbalanced_marker_literal [OF h, of "''A<x> b''"] h by blast
qed

section \<open>Templates without placeholders\<close>

lemma split_ph_no_marker: "\<not> has_marker s \<Longrightarrow> split_ph lit s = [lit @ s]"
proof (induction s arbitrary: lit)
  case Nil
  then show ?case by simp
next
  case (Cons c s)
  show ?case
  proof (cases "c = CHR ''<''")
    case True
    with Cons.prems have "find_gt s = None" by (simp add: find_gt_None)
    with Cons True show ?thesis by simp
  next
    case False
    with Cons show ?thesis by simp
  qed
qed

lemma no_marker_not_placeholder:
  assumes "\<not> has_marker s"
  shows "\<not> is_placeholder s"
proof
  assume p: "is_placeholder s"
  then obtain cs where s: "s = CHR ''<'' # cs"
    by (cases s) (auto simp: is_placeholder_def startswith_def)
  from p have "s \<noteq> [] \<and> last s = CHR ''>''"
    by (cases s rule: rev_cases) (auto simp: is_placeholder_def endswith_def)
  with s have "cs \<noteq> [] \<and> last cs = CHR ''>''"
    by (cases cs) auto
  then have "CHR ''>'' \<in> set cs"
    using last_in_set by metis
  with s assms show False by simp
qed

lemma has_marker_markers: "has_marker (markers s) = has_marker s"
  by (induction s) (auto simp: markers_def)

lemma gt_not_space [simp]: "\<not> isspace (CHR ''>'')"
  by (simp add: isspace_def)

lemma filter_dropWhile_disjoint:
  assumes "\<And>x. Q x \<Longrightarrow> \<not> P x"
  shows "filter P (dropWhile Q xs) = filter P xs"
  using assms by (induction xs) auto

lemma markers_lstrip: "markers (lstrip s) = markers s"
  unfolding markers_def lstrip_def by (rule filter_dropWhile_disjoint) auto

lemma markers_rstrip: "markers (rstrip s) = markers s"
proof -
  have "filter (\<lambda>c. c = CHR ''<'' \<or> c = CHR ''>'') (dropWhile isspace (rev s))
        = filter (\<lambda>c. c = CHR ''<'' \<or> c = CHR ''>'') (rev s)"
    by (rule filter_dropWhile_disjoint) auto
  then show ?thesis
    unfolding markers_def rstrip_def rev_filter [symmetric] by simp
qed

lemma markers_sub_ws: "markers (sub_ws s) = markers s"
proof (induction s rule: sub_ws.induct)
  case 1
  then show ?case by simp
next
  case (2 c cs)
  show ?case
  proof (cases "isspace c")
    case True
    then have c: "c \<noteq> CHR ''<''" "c \<noteq> CHR ''>''" by auto
    have "markers (dropWhile isspace cs) = markers cs"
      using markers_lstrip [of cs] by (simp add: lstrip_def)
    with 2(1) True c show ?thesis by (simp add: markers_def)
  next
    case False
    with 2(2) show ?thesis by (simp add: markers_def)
  qed
qed

lemma markers_lower: "markers (lower s) = markers s"
proof (induction s)
  case Nil
  then show ?case by (simp add: lower_def markers_def)
next
  case (Cons c s)
  have "lower_char c = CHR ''<'' \<longleftrightarrow> c = CHR ''<''"
  proof (cases "isupper c")
    case True
    then have "(of_char (lower_char c) :: nat) \<ge> 97"
      by (simp add: of_char_lower_char isupper_def)
    then have "lower_char c \<noteq> CHR ''<''" by auto
    moreover from True have "c \<noteq> CHR ''<''" by (auto simp: isupper_def)
    ultimately show ?thesis by simp
  next
    case False
    then show ?thesis by (simp add: lower_char_def)
  qed
  with Cons lower_char_gt [of c] show ?case
    by (auto simp: lower_def markers_def)
qed

lemma has_marker_clean: "has_marker (clean t) = has_marker t"
proof -
  have "markers (clean t) = markers t"
    by (simp add: clean_def strip_def markers_sub_ws markers_rstrip markers_lstrip markers_lower)
  then show ?thesis
    using has_marker_markers by metis
qed

lemma compile_literal_template:
  assumes "\<not> has_marker t"
  shows "re_compile (normalize t True) = Inr (Bol # map lit_item (clean t) @ [Eol])"
proof -
  from assms have n: "\<not> has_marker (clean t)" by (simp add: has_marker_clean)
  then have "re_split_ph (clean t) = [clean t]"
    by (simp add: re_split_ph_def split_ph_no_marker)
  with no_marker_not_placeholder [OF n] show ?thesis
    by (simp add: compile_normalize part_items_def)
qed

lemma single_spaced_sub_ws: "single_spaced (sub_ws s)"
proof (induction s rule: sub_ws.induct)
  case 1
  then show ?case by simp
next
  case (2 c cs)
  show ?case
  proof (cases "isspace c")
    case True
    have "no_lead (sub_ws (dropWhile isspace cs))"
      using no_lead_sub_ws [OF no_lead_lstrip [of cs]] by (simp add: lstrip_def)
    with 2(1) True show ?thesis by simp
  next
    case False
    with 2(2) show ?thesis by simp
  qed
qed

lemma star_space_skip:
  "no_lead m \<Longrightarrow> matches (Star Space # p) b m = matches p b m"
  by (cases m) (auto simp: no_lead_def)

lemma matches_Eol [simp]: "matches [Eol] b m \<longleftrightarrow> m = []"
  by auto

lemma matches_literal:
  "single_spaced m \<Longrightarrow> matches (map lit_item t @ [Eol]) b m \<longleftrightarrow> del_spaces t m"
proof (induction t arbitrary: m b)
  case Nil
  then show ?case by auto
next
  case (Cons c t)
  let ?p = "map lit_item t @ [Eol]"
  show ?case
  proof (cases "c = CHR '' ''")
    case True
    then have li: "map lit_item (c # t) @ [Eol] = Star Space # ?p"
      by (simp add: lit_item_def)
    show ?thesis
    proof (cases m)
      case Nil
      with True Cons.IH [OF Cons.prems, of b] show ?thesis
        unfolding li by simp
    next
      case m: (Cons x xs)
      with Cons.prems have xs: "single_spaced xs" by simp
      have "isspace x \<and> matches (Star Space # ?p) False xs \<longleftrightarrow> x = CHR '' '' \<and> del_spaces t xs"
      proof (cases "isspace x")
        case sp: True
        with Cons.prems m have "x = CHR '' ''" and "no_lead xs" by simp_all
        then show ?thesis
          using sp Cons.IH [OF xs, of False] by (simp add: star_space_skip)
      next
        case False
        then have "x \<noteq> CHR '' ''" by auto
        with False show ?thesis by simp
      qed
      with True m Cons.IH [OF Cons.prems, of b] show ?thesis
        unfolding li by auto
    qed
  next
    case False
    then have li: "map lit_item (c # t) @ [Eol] = One (Lit c) # ?p"
      by (simp add: lit_item_def)
    show ?thesis
    proof (cases m)
      case Nil
      with False show ?thesis unfolding li by simp
    next
      case m: (Cons x xs)
      with Cons.prems have xs: "single_spaced xs" by simp
      with False m Cons.IH [OF xs, of False] show ?thesis
        unfolding li by auto
    qed
  qed
qed

lemma is_covered_single:
  "is_covered message [p] \<longleftrightarrow> matches p True (clean message)"
  by (simp add: is_covered_def normalize_def fullmatch_def)

text \<open>
  C4, as amended. A template without placeholder markers compiles, and it covers a
  message exactly when the normalized message is the normalized template with some of
  its spaces deleted: every space of the template may be absent from the message, and
  nothing else may differ.
\<close>

theorem literal_template_coverage:
  assumes "\<not> has_marker t"
  shows "is_covered message (compile_templates re_compile [Str t])
         \<longleftrightarrow> del_spaces (normalize t False) (normalize message False)"
proof -
  have "single_spaced (clean message)"
    by (simp add: clean_def single_spaced_sub_ws)
  then have "matches (map lit_item (clean t) @ [Eol]) True (clean message)
             \<longleftrightarrow> del_spaces (clean t) (clean message)"
    by (rule matches_literal)
  moreover have "compile_templates re_compile [Str t]
                 = [Bol # map lit_item (clean t) @ [Eol]]"
    by (simp add: compile_literal_template [OF assms])
  moreover have "normalize x False = clean x" for x
    by (simp add: normalize_def)
  ultimately show ?thesis
    by (simp add: is_covered_single)
qed

theorem literal_template_coverage_witness:
  "\<not> has_marker ''Rs. 100 > 50'' \<and>
   is_covered ''RS.100  >   50 '' (compile_templates re_compile [Str ''Rs. 100 > 50'']) \<and>
   del_spaces (normalize ''Rs. 100 > 50'' False) (normalize ''RS.100  >   50 '' False)"
proof -
  have h: "\<not> has_marker ''Rs. 100 > 50''" by simp
  have "del_spaces (normalize ''Rs. 100 > 50'' False) (normalize ''RS.100  >   50 '' False)"
    by code_simp
  with literal_template_coverage [OF h, of "''RS.100  >   50 ''"] h show ?thesis by blast
qed

text \<open>
  C4, as stated, fails: the template \<open>a b\<close> has no placeholder and covers the message \<open>ab\<close>,
  which is not equal to it modulo case and collapsing of whitespace runs.
\<close>

theorem literal_template_not_exact:
  "\<not> has_marker ''a b'' \<and>
   is_covered ''ab'' (compile_templates re_compile [Str ''a b'']) \<and>
   normalize ''ab'' False \<noteq> normalize ''a b'' False"
  by code_simp

section \<open>Building the registry\<close>

lemma compile_templates_append:
  "compile_templates rc (xs @ ys) = compile_templates rc xs @ compile_templates rc ys"
  by (induction xs) (auto split: cell.splits sum.splits)







lemma compile_one_re_compile:
  "compile_one re_compile (Str s)
   = Some (Bol # concat (map part_items (re_split_ph (clean s))) @ [Eol])"
  by (simp add: compile_one_def compile_normalize)



end
